theory Spec2Isabelle
  imports Complex_Main "HOL-Library.Word" "HOL-Library.Signed_Division"
begin

section \<open>Machine integers and failures\<close>

text \<open>
  The C++ \<open>int\<close> and \<open>int32_t\<close> of the source are 32-bit two's complement words:
  \<open>+\<close> and \<open>-\<close> wrap around, comparisons are the signed ones (\<open><s\<close>).
\<close>

type_synonym int32 = "32 word"

text \<open>
  What a call can do besides returning: read an array or a vector behind its end, divide
  by zero, or convert a \<open>double\<close> that no \<open>int\<close> represents.
  \<open>InvalidConfiguration\<close> is the error the specification names; no statement of
  \<open>SimpleSpmv.hpp\<close> raises it. A loop that never ends is the value \<open>None\<close> of the
  enclosing \<open>option\<close>.
\<close>

datatype error = OutOfBounds | DivisionByZero | Unrepresentable | InvalidConfiguration

text \<open>\<open>std::min(a, b)\<close> on \<open>int\<close>: \<open>b\<close> when \<open>b < a\<close>, else \<open>a\<close>.\<close>

definition std_min :: "int32 \<Rightarrow> int32 \<Rightarrow> int32" where
  "std_min a b = (if b <s a then b else a)"

text \<open>\<open>a % b\<close> on \<open>int\<close>, for \<open>b \<noteq> 0\<close>: the remainder has the sign of \<open>a\<close>.\<close>

definition c_rem :: "int32 \<Rightarrow> int32 \<Rightarrow> int32" where
  "c_rem a b = word_of_int (sint a smod sint b)"

text \<open>
  The row's count of nonzeros as the loops compute it:
  \<open>v[i] - (i > 0 ? v[i - 1] : 0)\<close>, with the read of \<open>v[i]\<close> checked against the end of
  the array.
\<close>

definition row_toread :: "int32 list \<Rightarrow> nat \<Rightarrow> error + int32" where
  "row_toread v i =
     (if length v \<le> i then Inl OutOfBounds
      else Inr (v ! i - (if 0 < i then v ! (i - 1) else 0)))"

section \<open>FstSpmvArchitecture::cycleCount\<close>

text \<open>
  The \<open>do { toread -= std::min(toread, inputWidth); cycles++; } while (toread > 0)\<close>
  of lines 179 to 182, on the pair \<open>(toread, cycles)\<close>.
\<close>

partial_function (option) Fst_do_while :: "int32 \<Rightarrow> int32 \<Rightarrow> int32 \<Rightarrow> (int32 \<times> int32) option" where
  "Fst_do_while inputWidth toread cycles =
     (let toread' = toread - std_min toread inputWidth;
          cycles' = cycles + 1
      in if 0 <s toread' then Fst_do_while inputWidth toread' cycles'
         else Some (toread', cycles'))"

declare Fst_do_while.simps [code]

text \<open>The \<open>for (int i = 0; i < size; i++)\<close> of line 177, from index \<open>i\<close> on.\<close>

function Fst_for :: "int32 list \<Rightarrow> int32 \<Rightarrow> int32 \<Rightarrow> nat \<Rightarrow> int32 \<Rightarrow> (error + int32) option" where
  "Fst_for v sz inputWidth i cycles =
     (if int i < sint sz then
        (case row_toread v i of
           Inl e \<Rightarrow> Some (Inl e)
         | Inr toread \<Rightarrow>
             (case Fst_do_while inputWidth toread cycles of
                None \<Rightarrow> None
              | Some (toread', cycles') \<Rightarrow> Fst_for v sz inputWidth (Suc i) cycles'))
      else Some (Inr cycles))"
  by pat_completeness auto
termination
  by (relation "measure (\<lambda>(v, sz, inputWidth, i, cycles). nat (sint sz) - i)") auto

declare Fst_for.simps [simp del]

definition Fst_cycleCount :: "int32 list \<Rightarrow> int32 \<Rightarrow> int32 \<Rightarrow> (error + int32) option" where
  "Fst_cycleCount v sz inputWidth = Fst_for v sz inputWidth 0 0"

section \<open>SkipEmptyRowsArchitecture::cycleCount\<close>

text \<open>
  The inner \<open>do ... while (toread > 0)\<close> of lines 215 to 221, on
  \<open>(toread, crtPos, cycles)\<close>. \<open>crtPos %= inputWidth\<close> divides by zero when
  \<open>inputWidth\<close> is 0.
\<close>

partial_function (option) SkipEmptyRows_do_while ::
  "int32 \<Rightarrow> int32 \<Rightarrow> int32 \<Rightarrow> int32 \<Rightarrow> (error + int32 \<times> int32 \<times> int32) option" where
  "SkipEmptyRows_do_while inputWidth toread crtPos cycles =
     (let canread = std_min (inputWidth - crtPos) toread;
          crtPos1 = crtPos + canread
      in if inputWidth = 0 then Some (Inl DivisionByZero)
         else
           let crtPos2 = c_rem crtPos1 inputWidth;
               cycles' = cycles + 1;
               toread' = toread - canread
           in if 0 <s toread' then SkipEmptyRows_do_while inputWidth toread' crtPos2 cycles'
              else Some (Inr (toread', crtPos2, cycles')))"

declare SkipEmptyRows_do_while.simps [code]

text \<open>
  The loop of line 207 from index \<open>i\<close> on; the state is
  \<open>(cycles, crtPos, prevtoread)\<close>.
\<close>

function SkipEmptyRows_for ::
  "int32 list \<Rightarrow> int32 \<Rightarrow> int32 \<Rightarrow> nat \<Rightarrow> int32 \<times> int32 \<times> int32 \<Rightarrow> (error + int32) option" where
  "SkipEmptyRows_for v sz inputWidth i s =
     (case s of (cycles, crtPos, prevtoread) \<Rightarrow>
        if int i < sint sz then
          (case row_toread v i of
             Inl e \<Rightarrow> Some (Inl e)
           | Inr toread \<Rightarrow>
               if toread = 0 \<and> prevtoread = 0 then
                 SkipEmptyRows_for v sz inputWidth (Suc i) (cycles, crtPos, prevtoread)
               else
                 (case SkipEmptyRows_do_while inputWidth toread crtPos
                         (if toread = 0 then cycles + 1 else cycles) of
                    None \<Rightarrow> None
                  | Some (Inl e) \<Rightarrow> Some (Inl e)
                  | Some (Inr (toread', crtPos', cycles')) \<Rightarrow>
                      SkipEmptyRows_for v sz inputWidth (Suc i) (cycles', crtPos', toread)))
        else Some (Inr cycles))"
  by pat_completeness auto
termination
  by (relation "measure (\<lambda>(v, sz, inputWidth, i, s). nat (sint sz) - i)") auto

declare SkipEmptyRows_for.simps [simp del]

definition SkipEmptyRows_cycleCount :: "int32 list \<Rightarrow> int32 \<Rightarrow> int32 \<Rightarrow> (error + int32) option" where
  "SkipEmptyRows_cycleCount v sz inputWidth = SkipEmptyRows_for v sz inputWidth 0 (0, 0, - 1)"

section \<open>The Simple policy\<close>

text \<open>
  Modelled from the spec: \<open>SimpleSpmvArchitecture::cycleCount\<close> is declared at line 53 of
  \<open>SimpleSpmv.hpp\<close> and its body is in no source file at hand. The specification: for
  each row, repeatedly subtract up to \<open>inputWidth\<close> from its remaining nonzero count,
  one cycle per subtraction, until nothing remains; a row with zero nonzeros still
  consumes one cycle. The block costs the sum over its rows, and row \<open>i\<close> holds
  \<open>rowDeltas[i] - rowDeltas[i-1]\<close> nonzeros, with \<open>rowDeltas[-1] = 0\<close>.
\<close>

partial_function (option) Simple_row_cycles :: "int32 \<Rightarrow> int32 \<Rightarrow> int32 option" where
  "Simple_row_cycles inputWidth remaining =
     (let rest = remaining - std_min remaining inputWidth
      in if 0 <s rest
         then Option.bind (Simple_row_cycles inputWidth rest) (\<lambda>c. Some (c + 1))
         else Some 1)"

declare Simple_row_cycles.simps [code]

primrec Simple_rows :: "int32 list \<Rightarrow> int32 \<Rightarrow> nat \<Rightarrow> (error + int32) option" where
  "Simple_rows v inputWidth 0 = Some (Inr 0)"
| "Simple_rows v inputWidth (Suc k) =
     (case Simple_rows v inputWidth k of
        None \<Rightarrow> None
      | Some (Inl e) \<Rightarrow> Some (Inl e)
      | Some (Inr cycles) \<Rightarrow>
          (case row_toread v k of
             Inl e \<Rightarrow> Some (Inl e)
           | Inr nnz \<Rightarrow>
               map_option (\<lambda>c. Inr (cycles + c)) (Simple_row_cycles inputWidth nnz)))"

definition Simple_cycleCount :: "int32 list \<Rightarrow> int32 \<Rightarrow> int32 \<Rightarrow> (error + int32) option" where
  "Simple_cycleCount v sz inputWidth = Simple_rows v inputWidth (nat (sint sz))"

section \<open>The architecture model\<close>

text \<open>
  \<open>indptr_value\<close> and \<open>BlockingResult\<close> of lines 17 to 39. The field \<open>value\<close> is
  \<open>val\<close> here and the field \<open>n\<close> is \<open>nrows\<close>; a \<open>double\<close> that is only stored is a
  \<open>real\<close>.
\<close>

record indptr_value =
  val :: real
  indptr :: int32

record BlockingResult =
  nPartitions :: int32
  nrows :: int32
  paddingCycles :: int32
  totalCycles :: int32
  vector_load_cycles :: int32
  outSize :: int32
  m_colptr :: "int32 list"
  m_indptr_values :: "indptr_value list"

text \<open>
  Modelled from the spec: \<open>EigenSparseMatrix\<close> is a type of the Eigen library. The
  specification describes it as a compressed row representation: a row-pointer array,
  and paired arrays of column index and value.
\<close>

record EigenSparseMatrix =
  rowPtr :: "int32 list"
  colIndex :: "int32 list"
  vals :: "real list"

definition EigenSparseMatrix_empty :: EigenSparseMatrix where
  "EigenSparseMatrix_empty = \<lparr>rowPtr = [0], colIndex = [], vals = []\<rparr>"

text \<open>
  Modelled from the spec: \<open>ResourceUsage\<close> is declared in \<open>Spark/Spmv.hpp\<close>, which is not
  at hand. Line 85 initialises four \<open>int\<close> fields in order, the last one with the
  count of BRAMs; the names of the others are those of the specification.
\<close>

record ResourceUsage =
  luts :: int32
  ffs :: int32
  dsps :: int32
  brams :: int32

text \<open>The fields of \<open>SimpleSpmvArchitecture\<close>, lines 49 to 51.\<close>

record SimpleSpmvArchitecture =
  cacheSize :: int32
  inputWidth :: int32
  numPipes :: int32
  mat :: EigenSparseMatrix
  partitions :: "BlockingResult list"

text \<open>
  The constructor of lines 62 to 65 stores its three arguments; the matrix and the
  vector of results start empty. It has no failing path.
\<close>

definition SimpleSpmvArchitecture_new :: "int32 \<Rightarrow> int32 \<Rightarrow> int32 \<Rightarrow> error + SimpleSpmvArchitecture" where
  "SimpleSpmvArchitecture_new cacheSize' inputWidth' numPipes' =
     Inr \<lparr>cacheSize = cacheSize', inputWidth = inputWidth', numPipes = numPipes',
          mat = EigenSparseMatrix_empty, partitions = []\<rparr>"

text \<open>
  \<open>std::max_element(first, last, cmp)\<close>: the first element that no later one beats;
  the end of the range, here \<open>None\<close>, when the range is empty.
\<close>

primrec max_element_loop :: "('a \<Rightarrow> 'a \<Rightarrow> bool) \<Rightarrow> 'a \<Rightarrow> 'a list \<Rightarrow> 'a" where
  "max_element_loop cmp largest [] = largest"
| "max_element_loop cmp largest (x # xs) =
     max_element_loop cmp (if cmp largest x then x else largest) xs"

definition max_element :: "('a \<Rightarrow> 'a \<Rightarrow> bool) \<Rightarrow> 'a list \<Rightarrow> 'a option" where
  "max_element cmp xs = (case xs of [] \<Rightarrow> None | x # rest \<Rightarrow> Some (max_element_loop cmp x rest))"

text \<open>
  Lines 69 to 75. The result is the \<open>int\<close> field converted to \<open>double\<close>, which is exact
  for every 32-bit value. Dereferencing the end of an empty vector is \<open>OutOfBounds\<close>.
\<close>

definition getEstimatedClockCycles :: "SimpleSpmvArchitecture \<Rightarrow> error + real" where
  "getEstimatedClockCycles a =
     (case max_element (\<lambda>a b. totalCycles a <s totalCycles b) (partitions a) of
        None \<Rightarrow> Inl OutOfBounds
      | Some res \<Rightarrow> Inr (real_of_int (sint (totalCycles res))))"

text \<open>
  The conversion of a \<open>double\<close> to \<open>int\<close> truncates towards zero, and is undefined when
  the truncated value is no \<open>int\<close>.
\<close>

definition double_to_int :: "real \<Rightarrow> error + int32" where
  "double_to_int x =
     (let t = (if 0 \<le> x then \<lfloor>x\<rfloor> else \<lceil>x\<rceil>)
      in if - (2 ^ 31) \<le> t \<and> t < 2 ^ 31 then Inr (word_of_int t) else Inl Unrepresentable)"

text \<open>
  Lines 82 to 86. The product of two \<open>int\<close> values is exact in \<open>double\<close> up to
  \<open>2 ^ 53\<close>, and dividing by 512 and doubling are exact; a product beyond \<open>2 ^ 53\<close>
  rounds to a value of at least \<open>2 ^ 53\<close>, whose 256th part is beyond every \<open>int\<close>, as
  the exact quotient is. So the arithmetic on \<open>real\<close> gives what the \<open>double\<close> gives.
\<close>

definition getResourceUsage :: "SimpleSpmvArchitecture \<Rightarrow> error + ResourceUsage" where
  "getResourceUsage a =
     (case double_to_int
             (real_of_int (sint (cacheSize a)) * real_of_int (sint (inputWidth a)) / 512 * 2) of
        Inl e \<Rightarrow> Inl e
      | Inr b \<Rightarrow> Inr \<lparr>luts = - 1, ffs = - 1, dsps = - 1, brams = b\<rparr>)"

section \<open>The architecture space\<close>

text \<open>
  Modelled from the spec: \<open>spark::utils::Range\<close> is declared in \<open>Spark/Utils.hpp\<close>, which
  is not at hand. The specification: a restartable enumerator over an integer arithmetic
  range (start, stop, step) that wraps back to its start value; the ranges
  \<open>[1024,4096,512]\<close>, \<open>[8,100,8]\<close> and \<open>[1,6,1]\<close> hold 7, 12 and 6 values, so the stop
  value belongs to the range. The field \<open>end\<close> is \<open>stop\<close> here.
\<close>

record Range =
  start :: int32
  stop :: int32
  step :: int32
  crt :: int32

definition Range_new :: "int32 \<Rightarrow> int32 \<Rightarrow> int32 \<Rightarrow> Range" where
  "Range_new a b c = \<lparr>start = a, stop = b, step = c, crt = a\<rparr>"

definition Range_incr :: "Range \<Rightarrow> Range" where
  "Range_incr r =
     (let nxt = crt r + step r
      in r\<lparr>crt := (if stop r <s nxt then start r else nxt)\<rparr>)"

definition at_start :: "Range \<Rightarrow> bool" where
  "at_start r = (crt r = start r)"

definition Range_restart :: "Range \<Rightarrow> Range" where
  "Range_restart r = r\<lparr>crt := start r\<rparr>"

text \<open>The fields of \<open>SimpleSpmvArchitectureSpace\<close>, lines 122 to 126, with their defaults.\<close>

record SimpleSpmvArchitectureSpace =
  cacheSizeR :: Range
  inputWidthR :: Range
  numPipesR :: Range
  last' :: bool

definition SimpleSpmvArchitectureSpace_new :: SimpleSpmvArchitectureSpace where
  "SimpleSpmvArchitectureSpace_new =
     \<lparr>cacheSizeR = Range_new 1024 4096 512, inputWidthR = Range_new 8 100 8,
      numPipesR = Range_new 1 6 1, last' = False\<rparr>"

text \<open>Lines 143 to 148.\<close>

definition restart :: "SimpleSpmvArchitectureSpace \<Rightarrow> SimpleSpmvArchitectureSpace" where
  "restart s =
     s\<lparr>cacheSizeR := Range_restart (cacheSizeR s),
       inputWidthR := Range_restart (inputWidthR s),
       numPipesR := Range_restart (numPipesR s),
       last' := False\<rparr>"

text \<open>
  Lines 150 to 167. The template parameter \<open>T\<close> is the constructor \<open>mk\<close>; \<open>nullptr\<close> is
  \<open>None\<close>. The result comes with the enumerator's new state.
\<close>

definition doNext ::
  "(int32 \<Rightarrow> int32 \<Rightarrow> int32 \<Rightarrow> 'a) \<Rightarrow> SimpleSpmvArchitectureSpace \<Rightarrow> 'a option \<times> SimpleSpmvArchitectureSpace" where
  "doNext mk s =
     (if last' s then (None, s)
      else
        let result = mk (crt (cacheSizeR s)) (crt (inputWidthR s)) (crt (numPipesR s));
            s1 = s\<lparr>cacheSizeR := Range_incr (cacheSizeR s)\<rparr>
        in if at_start (cacheSizeR s1) then
             let s2 = s1\<lparr>inputWidthR := Range_incr (inputWidthR s1)\<rparr>
             in if at_start (inputWidthR s2) then
                  let s3 = s2\<lparr>numPipesR := Range_incr (numPipesR s2)\<rparr>
                  in if at_start (numPipesR s3) then (Some result, s3\<lparr>last' := True\<rparr>)
                     else (Some result, s3)
                else (Some result, s2)
           else (Some result, s1))"

text \<open>\<open>k\<close> successive calls: what each returned, and the state they leave.\<close>

primrec calls :: "(int32 \<Rightarrow> int32 \<Rightarrow> int32 \<Rightarrow> 'a) \<Rightarrow> nat \<Rightarrow> SimpleSpmvArchitectureSpace \<Rightarrow> 'a option list \<times> SimpleSpmvArchitectureSpace" where
  "calls mk 0 s = ([], s)"
| "calls mk (Suc k) s =
     (case doNext mk s of (r, s') \<Rightarrow> (case calls mk k s' of (rs, s'') \<Rightarrow> (r # rs, s'')))"

section \<open>Arithmetic on 32-bit values\<close>

lemma sint32_range: "- (2 ^ 31) \<le> sint (x :: int32) \<and> sint x < 2 ^ 31"
  using sint_ge [of x] sint_lt [of x] by simp

lemma sint_of_int32: "- (2 ^ 31) \<le> k \<Longrightarrow> k < 2 ^ 31 \<Longrightarrow> sint (word_of_int k :: int32) = k"
  by (simp add: signed_of_int signed_take_bit_int_eq_self)

lemma sint_sub32:
  "- (2 ^ 31) \<le> sint a - sint b \<Longrightarrow> sint a - sint b < 2 ^ 31 \<Longrightarrow> sint (a - b :: int32) = sint a - sint b"
  by (simp add: sint_word_ariths signed_take_bit_int_eq_self)

lemma sint_add32:
  "- (2 ^ 31) \<le> sint a + sint b \<Longrightarrow> sint a + sint b < 2 ^ 31 \<Longrightarrow> sint (a + b :: int32) = sint a + sint b"
  by (simp add: sint_word_ariths signed_take_bit_int_eq_self)

lemma sint_sub32_nonneg:
  assumes "0 \<le> sint b" "sint b \<le> sint a"
  shows "sint (a - b :: int32) = sint a - sint b"
  using assms sint32_range [of a] sint32_range [of b] by (intro sint_sub32) linarith+

lemma Fst_do_while_empty:
  "0 \<le>s w \<Longrightarrow> Fst_do_while w 0 cycles = Some (0, cycles + 1)"
  by (subst Fst_do_while.simps) (simp add: std_min_def word_sle_eq word_sless_alt)

lemma ceiling_ratio_one:
  fixes t w :: int
  assumes "0 < t" "t \<le> w"
  shows "\<lceil>real_of_int t / real_of_int w\<rceil> = 1"
proof -
  have "real_of_int t / real_of_int w \<le> 1" "0 < real_of_int t / real_of_int w"
    using assms by simp_all
  then show ?thesis by (intro ceiling_unique) simp_all
qed

lemma ceiling_ratio_step:
  fixes t w :: int
  assumes "0 < w"
  shows "\<lceil>real_of_int t / real_of_int w\<rceil> = \<lceil>real_of_int (t - w) / real_of_int w\<rceil> + 1"
proof -
  have "real_of_int t / real_of_int w = real_of_int (t - w) / real_of_int w + 1"
    using assms by (simp add: diff_divide_distrib)
  then show ?thesis by (simp only: ceiling_add_one)
qed

lemma Fst_do_while_pos:
  assumes w: "0 < sint w"
  shows "0 < sint toread \<Longrightarrow>
    Fst_do_while w toread cycles =
      Some (0, cycles + word_of_int \<lceil>real_of_int (sint toread) / real_of_int (sint w)\<rceil>)"
proof (induction "nat (sint toread)" arbitrary: toread cycles rule: less_induct)
  case less
  let ?w = "sint w" and ?t = "sint toread"
  show ?case
  proof (cases "w <s toread")
    case False
    then have le: "?t \<le> ?w" by (simp add: word_sless_alt)
    have m: "std_min toread w = toread" using False by (simp add: std_min_def)
    have c: "\<lceil>real_of_int ?t / real_of_int ?w\<rceil> = 1"
      using less.prems le by (rule ceiling_ratio_one)
    show ?thesis unfolding c
      by (subst Fst_do_while.simps) (simp add: m word_sless_alt)
  next
    case True
    then have lt: "?w < ?t" by (simp add: word_sless_alt)
    have m: "std_min toread w = w" using True by (simp add: std_min_def)
    have s: "sint (toread - w) = ?t - ?w"
      using w lt by (intro sint_sub32_nonneg) simp_all
    have pos: "0 < sint (toread - w)" using s lt by simp
    have sm: "nat (sint (toread - w)) < nat ?t" using s w lt by simp
    have c: "\<lceil>real_of_int ?t / real_of_int ?w\<rceil> = \<lceil>real_of_int (?t - ?w) / real_of_int ?w\<rceil> + 1"
      using w by (rule ceiling_ratio_step)
    have r: "Fst_do_while w toread cycles = Fst_do_while w (toread - w) (cycles + 1)"
      by (subst Fst_do_while.simps) (simp add: m Let_def pos word_sless_alt)
    show ?thesis unfolding r c less.hyps [OF sm pos] s
      by simp
  qed
qed

lemma word_of_nat_sint: "0 \<le> sint (sz :: int32) \<Longrightarrow> of_nat (nat (sint sz)) = sz"
  by (simp add: of_nat_nat)

lemma Fst_for_empty:
  assumes w: "0 \<le>s w"
      and e: "\<And>i. i < nat (sint sz) \<Longrightarrow> row_toread v i = Inr 0"
  shows "i \<le> nat (sint sz) \<Longrightarrow>
     Fst_for v sz w i cycles = Some (Inr (cycles + of_nat (nat (sint sz) - i)))"
proof (induction "nat (sint sz) - i" arbitrary: i cycles)
  case 0
  then have "\<not> int i < sint sz" by simp
  with 0 show ?case by (simp add: Fst_for.simps)
next
  case (Suc k)
  then have lt: "i < nat (sint sz)" by simp
  then have lt': "int i < sint sz" by simp
  have k: "k = nat (sint sz) - Suc i" using Suc.hyps(2) by simp
  have n: "nat (sint sz) - i = Suc (nat (sint sz) - Suc i)" using lt by simp
  show ?case
    apply (subst Fst_for.simps)
    apply (simp only: lt' if_True e [OF lt] sum.case Fst_do_while_empty [OF w] option.case prod.case)
    apply (subst Suc.hyps(1) [OF k])
    using lt apply simp
    apply (simp add: n)
    done
qed

section \<open>The loop of Fst and the row sums of Simple\<close>

lemma Fst_do_while_Simple:
  assumes a: "Fst_do_while w0 t0 c0 = Some r0"
  shows "\<exists>k. Simple_row_cycles w0 t0 = Some k \<and> snd r0 = c0 + k"
proof (rule Fst_do_while.raw_induct
    [where P = "\<lambda>w t c r. \<exists>k. Simple_row_cycles w t = Some k \<and> snd r = c + k", OF _ a])
  fix f :: "int32 \<Rightarrow> int32 \<Rightarrow> int32 \<Rightarrow> (int32 \<times> int32) option" and w t c r
  assume IH: "\<And>w t c r. f w t c = Some r \<Longrightarrow> \<exists>k. Simple_row_cycles w t = Some k \<and> snd r = c + k"
    and body: "(let toread' = t - std_min t w; cycles' = c + 1
      in if 0 <s toread' then f w toread' cycles' else Some (toread', cycles')) = Some r"
  show "\<exists>k. Simple_row_cycles w t = Some k \<and> snd r = c + k"
  proof (cases "0 <s t - std_min t w")
    case True
    with body have "f w (t - std_min t w) (c + 1) = Some r" by (simp add: Let_def)
    then obtain k where k: "Simple_row_cycles w (t - std_min t w) = Some k" "snd r = c + 1 + k"
      using IH by blast
    have "Simple_row_cycles w t = Some (k + 1)"
      by (subst Simple_row_cycles.simps) (simp add: Let_def True k(1))
    with k(2) show ?thesis by (simp add: add.commute add.left_commute)
  next
    case False
    with body have "r = (t - std_min t w, c + 1)" by (simp add: Let_def)
    moreover have "Simple_row_cycles w t = Some 1"
      by (subst Simple_row_cycles.simps) (simp add: Let_def False)
    ultimately show ?thesis by simp
  qed
qed

lemma Simple_Fst_do_while:
  assumes a: "Simple_row_cycles w0 t0 = Some k0"
  shows "\<forall>c. \<exists>t'. Fst_do_while w0 t0 c = Some (t', c + k0)"
proof (rule Simple_row_cycles.raw_induct
    [where P = "\<lambda>w t k. \<forall>c. \<exists>t'. Fst_do_while w t c = Some (t', c + k)", OF _ a])
  fix f :: "int32 \<Rightarrow> int32 \<Rightarrow> int32 option" and w t k
  assume IH: "\<And>w t k. f w t = Some k \<Longrightarrow> \<forall>c. \<exists>t'. Fst_do_while w t c = Some (t', c + k)"
    and body: "(let rest = t - std_min t w
      in if 0 <s rest then Option.bind (f w rest) (\<lambda>c. Some (c + 1)) else Some 1) = Some k"
  show "\<forall>c. \<exists>t'. Fst_do_while w t c = Some (t', c + k)"
  proof (cases "0 <s t - std_min t w")
    case True
    with body obtain j where j: "f w (t - std_min t w) = Some j" "k = j + 1"
      by (auto simp: Let_def Option.bind_eq_Some_conv)
    show ?thesis
    proof
      fix c
      from IH [OF j(1)] obtain t' where "Fst_do_while w (t - std_min t w) (c + 1) = Some (t', c + 1 + j)"
        by blast
      then have "Fst_do_while w t c = Some (t', c + k)"
        by (subst Fst_do_while.simps) (simp add: Let_def True j(2) add.commute add.left_commute)
      then show "\<exists>t'. Fst_do_while w t c = Some (t', c + k)" by blast
    qed
  next
    case False
    with body have k: "k = 1" by (simp add: Let_def)
    show ?thesis
    proof
      fix c
      have "Fst_do_while w t c = Some (t - std_min t w, c + k)"
        by (subst Fst_do_while.simps) (simp add: Let_def False k)
      then show "\<exists>t'. Fst_do_while w t c = Some (t', c + k)" by blast
    qed
  qed
qed

lemma do_while_cycles_eq:
  "map_option snd (Fst_do_while w t c) = map_option (\<lambda>k. c + k) (Simple_row_cycles w t)"
proof (cases "Fst_do_while w t c")
  case None
  have "Simple_row_cycles w t = None"
  proof (rule ccontr)
    assume "Simple_row_cycles w t \<noteq> None"
    then obtain k where "Simple_row_cycles w t = Some k" by blast
    from Simple_Fst_do_while [OF this, THEN spec, of c] None show False by auto
  qed
  with None show ?thesis by simp
next
  case (Some r)
  from Fst_do_while_Simple [OF this] Some show ?thesis by auto
qed

lemma Simple_rows_stuck:
  assumes "\<And>c. Simple_rows v w m \<noteq> Some (Inr c)"
  shows "m \<le> k \<Longrightarrow> Simple_rows v w k = Simple_rows v w m"
proof (induction k)
  case 0
  then show ?case by simp
next
  case (Suc k)
  show ?case
  proof (cases "m = Suc k")
    case True
    then show ?thesis by simp
  next
    case False
    with Suc.prems have "m \<le> k" by simp
    then have eq: "Simple_rows v w k = Simple_rows v w m" by (rule Suc.IH)
    show ?thesis using assms
      by (simp add: eq split: option.splits sum.splits)
  qed
qed

lemma Fst_for_Simple_rows:
  "i \<le> nat (sint sz) \<Longrightarrow> Simple_rows v w i = Some (Inr c) \<Longrightarrow>
     Fst_for v sz w i c = Simple_rows v w (nat (sint sz))"
proof (induction "nat (sint sz) - i" arbitrary: i c)
  case 0
  then have "i = nat (sint sz)" "\<not> int i < sint sz" by simp_all
  with 0 show ?case by (simp add: Fst_for.simps)
next
  case (Suc k)
  then have lt: "i < nat (sint sz)" by simp
  then have lt': "int i < sint sz" by simp
  have le: "Suc i \<le> nat (sint sz)" using lt by simp
  have k: "k = nat (sint sz) - Suc i" using Suc.hyps(2) by simp
  show ?case
  proof (cases "row_toread v i")
    case (Inl e)
    have "Simple_rows v w (Suc i) = Some (Inl e)" by (simp add: Suc.prems(2) Inl)
    then have "Simple_rows v w (nat (sint sz)) = Some (Inl e)"
      using Simple_rows_stuck [of v w "Suc i", OF _ le] by simp
    moreover have "Fst_for v sz w i c = Some (Inl e)"
      by (subst Fst_for.simps) (simp add: lt' Inl)
    ultimately show ?thesis by simp
  next
    case (Inr t)
    have st: "Simple_rows v w (Suc i) = map_option (\<lambda>k. Inr (c + k)) (Simple_row_cycles w t)"
      by (simp add: Suc.prems(2) Inr)
    show ?thesis
    proof (cases "Fst_do_while w t c")
      case None
      with do_while_cycles_eq [of w t c] have "Simple_row_cycles w t = None" by simp
      with st have "Simple_rows v w (Suc i) = None" by simp
      then have "Simple_rows v w (nat (sint sz)) = None"
        using Simple_rows_stuck [of v w "Suc i", OF _ le] by simp
      moreover have "Fst_for v sz w i c = None"
        by (subst Fst_for.simps) (simp add: lt' Inr None)
      ultimately show ?thesis by simp
    next
      case (Some r)
      obtain t' c' where r: "r = (t', c')" by (cases r)
      from do_while_cycles_eq [of w t c] Some r
      obtain j where j: "Simple_row_cycles w t = Some j" "c' = c + j"
        by (cases "Simple_row_cycles w t") auto
      with st have "Simple_rows v w (Suc i) = Some (Inr c')" by simp
      from Suc.hyps(1) [OF k le this]
      have "Fst_for v sz w (Suc i) c' = Simple_rows v w (nat (sint sz))" .
      moreover have "Fst_for v sz w i c = Fst_for v sz w (Suc i) c'"
        by (subst Fst_for.simps) (simp add: lt' Inr Some r)
      ultimately show ?thesis by simp
    qed
  qed
qed

lemma Fst_cycleCount_Simple_rows: "Fst_cycleCount v sz w = Simple_cycleCount v sz w"
  unfolding Fst_cycleCount_def Simple_cycleCount_def
  by (rule Fst_for_Simple_rows) simp_all

section \<open>The maximum of the recorded cycles\<close>

lemma max_element_loop_Max:
  "sint (totalCycles (max_element_loop (\<lambda>a b. totalCycles a <s totalCycles b) x xs))
     = Max (set (map (\<lambda>r. sint (totalCycles r)) (x # xs)))"
proof (induction xs arbitrary: x)
  case Nil
  show ?case by simp
next
  case (Cons y ys)
  let ?S = "(\<lambda>r. sint (totalCycles r)) ` set ys"
  have fin: "finite ?S" by simp
  show ?case
  proof (cases "totalCycles x <s totalCycles y")
    case True
    then have le: "sint (totalCycles x) \<le> sint (totalCycles y)" by (simp add: word_sless_alt)
    have "sint (totalCycles y) \<le> Max (insert (sint (totalCycles y)) ?S)"
      using fin by (intro Max_ge) simp_all
    with le have "max (sint (totalCycles x)) (Max (insert (sint (totalCycles y)) ?S))
        = Max (insert (sint (totalCycles y)) ?S)" by linarith
    then show ?thesis using True Cons.IH [of y] fin by simp
  next
    case False
    then have le: "sint (totalCycles y) \<le> sint (totalCycles x)" by (simp add: word_sless_alt)
    have "Max (insert (sint (totalCycles x)) (insert (sint (totalCycles y)) ?S))
        = Max (insert (sint (totalCycles x)) ?S)"
    proof (cases "?S = {}")
      case True
      then show ?thesis using le by simp
    next
      case False
      then show ?thesis using le fin by (simp add: max.assoc [symmetric] max_absorb1)
    qed
    then show ?thesis using False Cons.IH [of x] by simp
  qed
qed

text \<open>
  C3: after a preprocessing that recorded at least one BlockingResult,
  \<open>getEstimatedClockCycles\<close> returns the greatest \<open>totalCycles\<close> of the recorded results.
\<close>

theorem getEstimatedClockCycles_is_max:
  "partitions a \<noteq> [] \<Longrightarrow>
   getEstimatedClockCycles a =
     Inr (real_of_int (Max (set (map (\<lambda>r. sint (totalCycles r)) (partitions a)))))"
  by (cases "partitions a")
    (simp_all add: getEstimatedClockCycles_def max_element_def max_element_loop_Max)

theorem getEstimatedClockCycles_is_max_witness:
  "partitions \<lparr>cacheSize = 8, inputWidth = 2, numPipes = 1, mat = EigenSparseMatrix_empty,
      partitions =
        [\<lparr>nPartitions = 1, nrows = 2, paddingCycles = 0, totalCycles = 7,
          vector_load_cycles = 0, outSize = 2, m_colptr = [], m_indptr_values = []\<rparr>,
         \<lparr>nPartitions = 1, nrows = 2, paddingCycles = 0, totalCycles = 12,
          vector_load_cycles = 0, outSize = 2, m_colptr = [], m_indptr_values = []\<rparr>,
         \<lparr>nPartitions = 1, nrows = 2, paddingCycles = 0, totalCycles = 9,
          vector_load_cycles = 0, outSize = 2, m_colptr = [], m_indptr_values = []\<rparr>]\<rparr> \<noteq> [] \<and>
   getEstimatedClockCycles \<lparr>cacheSize = 8, inputWidth = 2, numPipes = 1, mat = EigenSparseMatrix_empty,
      partitions =
        [\<lparr>nPartitions = 1, nrows = 2, paddingCycles = 0, totalCycles = 7,
          vector_load_cycles = 0, outSize = 2, m_colptr = [], m_indptr_values = []\<rparr>,
         \<lparr>nPartitions = 1, nrows = 2, paddingCycles = 0, totalCycles = 12,
          vector_load_cycles = 0, outSize = 2, m_colptr = [], m_indptr_values = []\<rparr>,
         \<lparr>nPartitions = 1, nrows = 2, paddingCycles = 0, totalCycles = 9,
          vector_load_cycles = 0, outSize = 2, m_colptr = [], m_indptr_values = []\<rparr>]\<rparr> = Inr 12"
  using getEstimatedClockCycles_is_max
    [of "\<lparr>cacheSize = 8, inputWidth = 2, numPipes = 1, mat = EigenSparseMatrix_empty,
      partitions =
        [\<lparr>nPartitions = 1, nrows = 2, paddingCycles = 0, totalCycles = 7,
          vector_load_cycles = 0, outSize = 2, m_colptr = [], m_indptr_values = []\<rparr>,
         \<lparr>nPartitions = 1, nrows = 2, paddingCycles = 0, totalCycles = 12,
          vector_load_cycles = 0, outSize = 2, m_colptr = [], m_indptr_values = []\<rparr>,
         \<lparr>nPartitions = 1, nrows = 2, paddingCycles = 0, totalCycles = 9,
          vector_load_cycles = 0, outSize = 2, m_colptr = [], m_indptr_values = []\<rparr>]\<rparr>"]
  by simp

section \<open>Cycle counts of the Simple and Fst policies\<close>

lemma ceiling_ratio_bounds:
  fixes t w :: int
  assumes "0 < t" "0 < w"
  shows "0 < \<lceil>real_of_int t / real_of_int w\<rceil> \<and> \<lceil>real_of_int t / real_of_int w\<rceil> \<le> t"
proof -
  have "1 \<le> real_of_int w" using assms(2) by simp
  then have "real_of_int t \<le> real_of_int t * real_of_int w"
    using assms(1) by (simp add: mult_le_cancel_left1)
  then have "real_of_int t / real_of_int w \<le> real_of_int t"
    using assms(2) by (simp add: divide_le_eq)
  then have "\<lceil>real_of_int t / real_of_int w\<rceil> \<le> t" by (simp only: ceiling_le_iff)
  moreover have "0 < real_of_int t / real_of_int w" using assms by simp
  then have "0 < \<lceil>real_of_int t / real_of_int w\<rceil>" by (simp only: zero_less_ceiling)
  ultimately show ?thesis by simp
qed

lemma Fst_cycleCount_empty:
  assumes "0 \<le>s sz" "0 \<le>s w" "\<And>i. i < nat (sint sz) \<Longrightarrow> row_toread v i = Inr 0"
  shows "Fst_cycleCount v sz w = Some (Inr sz)"
proof -
  have "0 \<le> sint sz" using assms(1) by (simp add: word_sle_eq)
  then have n: "(of_nat (nat (sint sz)) :: int32) = sz" by (rule word_of_nat_sint)
  have "Fst_for v sz w 0 0 = Some (Inr (0 + of_nat (nat (sint sz) - 0)))"
    by (rule Fst_for_empty [OF assms(2,3) le0])
  then show ?thesis
    unfolding Fst_cycleCount_def by (simp add: n)
qed

lemma Fst_cycleCount_single:
  assumes k: "0 <s k" and w: "0 <s w"
  shows "\<exists>c. Fst_cycleCount (k # rest) 1 w = Some (Inr c) \<and>
     sint c = \<lceil>real_of_int (sint k) / real_of_int (sint w)\<rceil>"
proof -
  let ?n = "\<lceil>real_of_int (sint k) / real_of_int (sint w)\<rceil>"
  have k0: "0 < sint k" and w0: "0 < sint w" using k w by (simp_all add: word_sless_alt)
  have d: "Fst_do_while w k 0 = Some (0, 0 + word_of_int ?n)"
    using w0 k0 by (rule Fst_do_while_pos)
  have r: "row_toread (k # rest) 0 = Inr k" by (simp add: row_toread_def)
  have one: "Fst_for (k # rest) 1 w (Suc 0) (word_of_int ?n) = Some (Inr (word_of_int ?n))"
    by (subst Fst_for.simps) (simp)
  have "Fst_for (k # rest) 1 w 0 0 = Some (Inr (word_of_int ?n))"
    by (subst Fst_for.simps) (simp add: r d one del: of_int_sint)
  moreover have "sint (word_of_int ?n :: int32) = ?n"
    using ceiling_ratio_bounds [OF k0 w0] sint32_range [of k]
    by (intro sint_of_int32) linarith+
  ultimately show ?thesis unfolding Fst_cycleCount_def by blast
qed

text \<open>
  C2: for the Fst policy and the Simple policy, a block whose rows are all empty costs
  \<open>size\<close> cycles, and a block of one row with \<open>k > 0\<close> nonzeros costs
  \<open>ceil (k / inputWidth)\<close> cycles when \<open>inputWidth > 0\<close>.
\<close>

theorem cycleCount_empty_rows_and_single_row:
  "(0 \<le>s sz \<and> 0 \<le>s w \<and> (\<forall>i < nat (sint sz). row_toread v i = Inr 0) \<longrightarrow>
      Fst_cycleCount v sz w = Some (Inr sz) \<and> Simple_cycleCount v sz w = Some (Inr sz)) \<and>
   (0 <s k \<and> 0 <s w \<longrightarrow>
      (\<exists>c. Fst_cycleCount (k # rest) 1 w = Some (Inr c) \<and>
           Simple_cycleCount (k # rest) 1 w = Some (Inr c) \<and>
           sint c = \<lceil>real_of_int (sint k) / real_of_int (sint w)\<rceil>))"
proof (intro conjI impI)
  assume a: "0 \<le>s sz \<and> 0 \<le>s w \<and> (\<forall>i < nat (sint sz). row_toread v i = Inr 0)"
  then have "Fst_cycleCount v sz w = Some (Inr sz)"
    by (intro Fst_cycleCount_empty) simp_all
  then show "Fst_cycleCount v sz w = Some (Inr sz)"
    and "Simple_cycleCount v sz w = Some (Inr sz)"
    by (simp_all add: Fst_cycleCount_Simple_rows [symmetric])
next
  assume "0 <s k \<and> 0 <s w"
  then obtain c where "Fst_cycleCount (k # rest) 1 w = Some (Inr c)"
    "sint c = \<lceil>real_of_int (sint k) / real_of_int (sint w)\<rceil>"
    using Fst_cycleCount_single [of k w rest] by blast
  then show "\<exists>c. Fst_cycleCount (k # rest) 1 w = Some (Inr c) \<and>
           Simple_cycleCount (k # rest) 1 w = Some (Inr c) \<and>
           sint c = \<lceil>real_of_int (sint k) / real_of_int (sint w)\<rceil>"
    by (simp add: Fst_cycleCount_Simple_rows [symmetric] del: of_int_sint)
qed

theorem cycleCount_empty_rows_and_single_row_witness:
  "0 \<le>s (3 :: int32) \<and> 0 <s (4 :: int32) \<and> 0 <s (10 :: int32) \<and>
   row_toread [0, 0, 0] 0 = Inr 0 \<and> row_toread [0, 0, 0] 1 = Inr 0 \<and>
   row_toread [0, 0, 0] 2 = Inr 0 \<and>
   Fst_cycleCount [0, 0, 0] 3 4 = Some (Inr 3) \<and>
   Simple_cycleCount [0, 0, 0] 3 4 = Some (Inr 3) \<and>
   (\<exists>c. Fst_cycleCount [10] 1 4 = Some (Inr c) \<and> Simple_cycleCount [10] 1 4 = Some (Inr c) \<and>
        sint c = 3)"
proof -
  have h1: "0 \<le>s (3 :: int32)" and h2: "0 \<le>s (4 :: int32)" and h3: "0 <s (4 :: int32)"
    and h4: "0 <s (10 :: int32)"
    by (simp_all add: word_sle_eq word_sless_alt)
  have n: "nat (sint (3 :: int32)) = 3" by simp
  have h5: "\<forall>i < nat (sint (3 :: int32)). row_toread [0, 0, 0] i = Inr 0"
    unfolding n by (simp add: row_toread_def less_Suc_eq numeral_3_eq_3 nth_Cons')
  have c: "\<lceil>real_of_int (sint (10 :: int32)) / real_of_int (sint (4 :: int32))\<rceil> = 3"
    by (simp add: ceiling_eq_iff del: of_int_sint) 
  have h6: "row_toread [0, 0, 0] 0 = Inr 0" "row_toread [0, 0, 0] 1 = Inr 0"
    "row_toread [0, 0, 0] 2 = Inr 0"
    by (simp_all add: row_toread_def)
  show ?thesis
    using cycleCount_empty_rows_and_single_row [of 3 4 "[0, 0, 0]" 10 "[]"] h1 h2 h3 h4 h5 h6 c
    by (simp del: of_int_sint)
qed


text \<open>
  C5: on every array, size and input width the Fst policy and the Simple policy give the
  same outcome: the same count, the same failure, or both run forever.
\<close>

theorem Fst_cycleCount_eq_Simple_cycleCount:
  "Fst_cycleCount v sz w = Simple_cycleCount v sz w"
  by (rule Fst_cycleCount_Simple_rows)

text \<open>
  C9: with \<open>size = 0\<close> every policy returns 0 cycles, whatever the array and the input
  width.
\<close>

theorem cycleCount_size_zero:
  "Fst_cycleCount v 0 w = Some (Inr 0) \<and> SkipEmptyRows_cycleCount v 0 w = Some (Inr 0) \<and>
   Simple_cycleCount v 0 w = Some (Inr 0)"
  by (simp add: Fst_cycleCount_def SkipEmptyRows_cycleCount_def Simple_cycleCount_def
      Fst_for.simps SkipEmptyRows_for.simps)

section \<open>Cycle counts of the SkipEmptyRows policy\<close>

lemma std_min_sint: "sint (std_min a b) = min (sint a) (sint b)"
  by (simp add: std_min_def word_sless_alt min_def)

lemma c_rem_nonneg:
  assumes "0 \<le> sint a" "0 < sint b"
  shows "sint (c_rem a b) = sint a mod sint b"
proof -
  have m: "sint a smod sint b = sint a mod sint b"
    using assms by (intro smod_mod_positive) simp_all
  have "0 \<le> sint a mod sint b" "sint a mod sint b < sint b"
    using assms(2) by simp_all
  then show ?thesis
    unfolding c_rem_def m using sint32_range [of b]
    by (intro sint_of_int32) linarith+
qed

lemma sint_eq_iff32: "sint (a :: int32) = sint b \<longleftrightarrow> a = b"
proof
  assume "sint a = sint b"
  then have "(word_of_int (sint a) :: int32) = word_of_int (sint b)" by simp
  then show "a = b" by simp
qed simp

lemma SkipEmptyRows_do_while_inv:
  assumes w: "0 < sint w"
  shows "0 \<le> sint t \<Longrightarrow> 0 \<le> sint p \<Longrightarrow> sint p < sint w \<Longrightarrow>
    \<exists>t' p' c'. SkipEmptyRows_do_while w t p c = Some (Inr (t', p', c')) \<and> 0 \<le> sint p' \<and> sint p' < sint w"
proof (induction "nat (sint t)" arbitrary: t p c rule: less_induct)
  case less
  define canread where "canread = std_min (w - p) t"
  define p2 where "p2 = c_rem (p + canread) w"
  have wp: "sint (w - p) = sint w - sint p"
    using less.prems by (intro sint_sub32_nonneg) simp_all
  have cr: "sint canread = min (sint w - sint p) (sint t)"
    by (simp add: canread_def std_min_sint wp)
  have cr0: "0 \<le> sint canread" using cr less.prems by simp
  have p1: "sint (p + canread) = sint p + sint canread"
    using cr less.prems sint32_range [of w] by (intro sint_add32) linarith+
  have "0 \<le> sint (p + canread)" using p1 cr0 less.prems by simp
  then have p2s: "sint p2 = (sint p + sint canread) mod sint w"
    unfolding p2_def using w by (simp add: c_rem_nonneg p1)
  have p2r: "0 \<le> sint p2" "sint p2 < sint w" unfolding p2s using w by simp_all
  have t': "sint (t - canread) = sint t - sint canread"
    using cr0 cr by (intro sint_sub32_nonneg) simp_all
  have wn0: "w \<noteq> 0" using w by auto
  have unf: "SkipEmptyRows_do_while w t p c =
      (if 0 <s t - canread then SkipEmptyRows_do_while w (t - canread) p2 (c + 1)
       else Some (Inr (t - canread, p2, c + 1)))"
    by (subst SkipEmptyRows_do_while.simps) (simp add: Let_def wn0 canread_def p2_def)
  show ?case
  proof (cases "0 <s t - canread")
    case True
    then have pos: "0 < sint t - sint canread" by (simp add: word_sless_alt t')
    then have "0 < sint t" using cr0 by simp
    then have "1 \<le> sint canread" using cr less.prems by simp
    then have sm: "nat (sint (t - canread)) < nat (sint t)" using pos t' by simp
    have "0 \<le> sint (t - canread)" using pos t' by simp
    from less.hyps [OF sm this p2r, of "c + 1"] show ?thesis
      unfolding unf using True by simp
  next
    case False
    then show ?thesis unfolding unf using p2r by simp
  qed
qed

lemma SkipEmptyRows_do_while_empty:
  assumes "0 \<le> sint p" "sint p < sint w"
  shows "SkipEmptyRows_do_while w 0 p c = Some (Inr (0, p, c + 1))"
proof -
  have wp: "sint (w - p) = sint w - sint p"
    using assms by (intro sint_sub32_nonneg) simp_all
  have "0 <s w - p" using wp assms by (simp add: word_sless_alt)
  then have cr: "std_min (w - p) 0 = 0" by (simp add: std_min_def)
  have w: "0 < sint w" using assms by simp
  then have wn0: "w \<noteq> 0" by auto
  have "sint (c_rem p w) = sint p" using assms w by (simp add: c_rem_nonneg)
  then have r: "c_rem p w = p" by (simp only: sint_eq_iff32)
  show ?thesis
    by (subst SkipEmptyRows_do_while.simps) (simp add: Let_def cr wn0 r)
qed


lemma SkipEmptyRows_for_empty_row:
  assumes w: "0 < sint w" and n0: "0 \<le> sint sz" and n1: "sint sz < 2 ^ 31 - 1"
    and wf: "\<And>j. j < nat (sint sz) \<Longrightarrow> \<exists>t. row_toread v j = Inr t \<and> 0 \<le> sint t"
    and e: "row_toread v (nat (sint sz)) = Inr 0"
  shows "j \<le> nat (sint sz) \<Longrightarrow> 0 \<le> sint p \<Longrightarrow> sint p < sint w \<Longrightarrow>
     (prev = 0) = (j \<noteq> 0 \<and> row_toread v (j - 1) = Inr 0) \<Longrightarrow>
     \<exists>c'. SkipEmptyRows_for v sz w j (c, p, prev) = Some (Inr c') \<and>
          SkipEmptyRows_for v (sz + 1) w j (c, p, prev) =
            Some (Inr (if sz = 0 \<or> row_toread v (nat (sint sz) - 1) \<noteq> Inr 0 then c' + 2 else c'))"
proof (induction "nat (sint sz) - j" arbitrary: j c p prev)
  case 0
  then have j: "j = nat (sint sz)" by simp
  have s1: "sint (sz + 1) = sint sz + 1"
    using n0 n1 by (simp add: sint_add32)
  have a: "\<not> int j < sint sz" using j by simp
  have b: "int j < sint (sz + 1)" "\<not> 1 + int j < sint (sz + 1)" using j s1 n0 by simp_all
  have z: "(sz = 0) = (j = 0)"
  proof
    assume "sz = 0" then show "j = 0" using j by simp
  next
    assume "j = 0"
    with j n0 have "sint sz = sint (0 :: int32)" by simp
    then show "sz = 0" by (simp only: sint_eq_iff32)
  qed
  have r1: "SkipEmptyRows_for v sz w j (c, p, prev) = Some (Inr c)"
    by (subst SkipEmptyRows_for.simps) (simp add: a)
  have last: "\<And>s. SkipEmptyRows_for v (sz + 1) w (Suc j) s = Some (Inr (fst s))"
    by (subst SkipEmptyRows_for.simps) (simp add: b split: prod.splits)
  show ?case
  proof (cases "prev = 0")
    case True
    have "SkipEmptyRows_for v (sz + 1) w j (c, p, prev) = Some (Inr c)"
      by (subst SkipEmptyRows_for.simps) (simp add: b e [folded j] True last)
    moreover have "\<not> (sz = 0 \<or> row_toread v (nat (sint sz) - 1) \<noteq> Inr 0)"
      using True "0.prems"(4) z j by simp
    ultimately show ?thesis using r1 by simp
  next
    case False
    have "SkipEmptyRows_for v (sz + 1) w j (c, p, prev) = Some (Inr (c + 2))"
      by (subst SkipEmptyRows_for.simps)
        (simp add: b e [folded j] False last SkipEmptyRows_do_while_empty [OF "0.prems"(2,3)])
    moreover have "sz = 0 \<or> row_toread v (nat (sint sz) - 1) \<noteq> Inr 0"
      using False "0.prems"(4) z j by auto
    ultimately show ?thesis using r1 by simp
  qed
next
  case (Suc k)
  then have lt: "j < nat (sint sz)" by simp
  have s1: "sint (sz + 1) = sint sz + 1"
    using n0 n1 by (simp add: sint_add32)
  have a: "int j < sint sz" "int j < sint (sz + 1)" using lt s1 by simp_all
  have k: "k = nat (sint sz) - Suc j" using Suc.hyps(2) by simp
  have le: "Suc j \<le> nat (sint sz)" using lt by simp
  from wf [OF lt] obtain t where t: "row_toread v j = Inr t" "0 \<le> sint t" by blast
  show ?case
  proof (cases "t = 0 \<and> prev = 0")
    case True
    have i: "(prev = 0) = (Suc j \<noteq> 0 \<and> row_toread v (Suc j - 1) = Inr 0)"
      using True t by simp
    have "SkipEmptyRows_for v sz w j (c, p, prev) = SkipEmptyRows_for v sz w (Suc j) (c, p, prev)"
      by (subst SkipEmptyRows_for.simps) (simp add: a t True)
    moreover have "SkipEmptyRows_for v (sz + 1) w j (c, p, prev) = SkipEmptyRows_for v (sz + 1) w (Suc j) (c, p, prev)"
      by (subst SkipEmptyRows_for.simps) (simp add: a t True)
    ultimately show ?thesis
      using Suc.hyps(1) [OF k le Suc.prems(2,3) i, of c] by simp
  next
    case False
    let ?c0 = "if t = 0 then c + 1 else c"
    from SkipEmptyRows_do_while_inv [OF w t(2) Suc.prems(2,3), of ?c0]
    obtain t' p' c' where d: "SkipEmptyRows_do_while w t p ?c0 = Some (Inr (t', p', c'))"
      "0 \<le> sint p'" "sint p' < sint w" by blast
    have i: "(t = 0) = (Suc j \<noteq> 0 \<and> row_toread v (Suc j - 1) = Inr 0)"
      using t by simp
    have "SkipEmptyRows_for v sz w j (c, p, prev) = SkipEmptyRows_for v sz w (Suc j) (c', p', t)"
      apply (subst SkipEmptyRows_for.simps) using False d(1) by (auto simp: a t)
    moreover have "SkipEmptyRows_for v (sz + 1) w j (c, p, prev) = SkipEmptyRows_for v (sz + 1) w (Suc j) (c', p', t)"
      apply (subst SkipEmptyRows_for.simps) using False d(1) by (auto simp: a t)
    ultimately show ?thesis
      using Suc.hyps(1) [OF k le d(2,3) i, of c'] by simp
  qed
qed


lemma SkipEmptyRows_cycleCount_next_empty:
  assumes w: "0 <s w" and n0: "0 \<le>s sz" and n1: "sz <s 2147483647"
    and wf: "\<forall>j < nat (sint sz). \<exists>t. row_toread v j = Inr t \<and> 0 \<le>s t"
    and e: "row_toread v (nat (sint sz)) = Inr 0"
  shows "\<exists>c. SkipEmptyRows_cycleCount v sz w = Some (Inr c) \<and>
     SkipEmptyRows_cycleCount v (sz + 1) w =
       Some (Inr (if sz = 0 \<or> row_toread v (nat (sint sz) - 1) \<noteq> Inr 0 then c + 2 else c))"
proof -
  have w': "0 < sint w" using w by (simp add: word_sless_alt)
  have n0': "0 \<le> sint sz" using n0 by (simp add: word_sle_eq)
  have n1': "sint sz < 2 ^ 31 - 1" using n1 by (simp add: word_sless_alt)
  have wf': "\<And>j. j < nat (sint sz) \<Longrightarrow> \<exists>t. row_toread v j = Inr t \<and> 0 \<le> sint t"
    using wf by (simp add: word_sle_eq)
  have i: "((- 1 :: int32) = 0) = ((0 :: nat) \<noteq> 0 \<and> row_toread v (0 - 1) = Inr 0)" by simp
  show ?thesis
    unfolding SkipEmptyRows_cycleCount_def
    by (rule SkipEmptyRows_for_empty_row [OF w' n0' n1' wf' e le0 _ _ i]) (simp_all add: w')
qed

text \<open>
  C1, as the code has it: with a positive input width and rows of non-negative counts,
  an empty row that is the first row or follows a non-empty row is charged 2 cycles,
  and an empty row that follows an empty row is charged none; so a pair of consecutive
  empty rows that starts a run of empty rows is charged 2 cycles in total. The row
  charged is the one that a block of \<open>sz + 1\<close> rows has beyond a block of \<open>sz\<close> rows.
\<close>

theorem SkipEmptyRows_cycleCount_empty_row_charge:
  "0 <s w \<and> 0 \<le>s sz \<and> sz <s 2147483647 \<and>
   (\<forall>j < nat (sint sz). \<exists>t. row_toread v j = Inr t \<and> 0 \<le>s t) \<and>
   row_toread v (nat (sint sz)) = Inr 0 \<longrightarrow>
   (\<exists>c. SkipEmptyRows_cycleCount v sz w = Some (Inr c) \<and>
        SkipEmptyRows_cycleCount v (sz + 1) w =
          Some (Inr (if sz = 0 \<or> row_toread v (nat (sint sz) - 1) \<noteq> Inr 0 then c + 2 else c)) \<and>
        (sz + 1 <s 2147483647 \<and> row_toread v (Suc (nat (sint sz))) = Inr 0 \<longrightarrow>
           SkipEmptyRows_cycleCount v (sz + 2) w = SkipEmptyRows_cycleCount v (sz + 1) w))"
proof (intro impI)
  assume h: "0 <s w \<and> 0 \<le>s sz \<and> sz <s 2147483647 \<and>
   (\<forall>j < nat (sint sz). \<exists>t. row_toread v j = Inr t \<and> 0 \<le>s t) \<and>
   row_toread v (nat (sint sz)) = Inr 0"
  then have w: "0 <s w" and n0: "0 \<le>s sz" and n1: "sz <s 2147483647"
    and wf: "\<forall>j < nat (sint sz). \<exists>t. row_toread v j = Inr t \<and> 0 \<le>s t"
    and e: "row_toread v (nat (sint sz)) = Inr 0" by simp_all
  from SkipEmptyRows_cycleCount_next_empty [OF w n0 n1 wf e]
  obtain c where c: "SkipEmptyRows_cycleCount v sz w = Some (Inr c)"
    "SkipEmptyRows_cycleCount v (sz + 1) w =
       Some (Inr (if sz = 0 \<or> row_toread v (nat (sint sz) - 1) \<noteq> Inr 0 then c + 2 else c))"
    by blast
  have s1: "sint (sz + 1) = sint sz + 1"
    using n0 n1 by (simp add: sint_add32 word_sle_eq word_sless_alt)
  then have nat1: "nat (sint (sz + 1)) = Suc (nat (sint sz))"
    using n0 by (simp add: word_sle_eq nat_add_distrib)
  have pair: "SkipEmptyRows_cycleCount v (sz + 2) w = SkipEmptyRows_cycleCount v (sz + 1) w"
    if p: "sz + 1 <s 2147483647" "row_toread v (Suc (nat (sint sz))) = Inr 0"
  proof -
    have m0: "0 \<le>s sz + 1" using s1 n0 by (simp add: word_sle_eq)
    have wf1: "\<forall>j < nat (sint (sz + 1)). \<exists>t. row_toread v j = Inr t \<and> 0 \<le>s t"
      unfolding nat1 using wf e by (auto simp: less_Suc_eq)
    have e1: "row_toread v (nat (sint (sz + 1))) = Inr 0" unfolding nat1 by (rule p(2))
    have ne: "sz + 1 \<noteq> 0" using s1 n0 by (auto simp: word_sle_eq)
    from SkipEmptyRows_cycleCount_next_empty [OF w m0 p(1) wf1 e1]
    obtain d where "SkipEmptyRows_cycleCount v (sz + 1) w = Some (Inr d)"
      "SkipEmptyRows_cycleCount v (sz + 1 + 1) w =
         Some (Inr (if sz + 1 = 0 \<or> row_toread v (nat (sint (sz + 1)) - 1) \<noteq> Inr 0 then d + 2 else d))"
      by blast
    moreover have "sz + 1 + 1 = sz + 2" by simp
    ultimately show ?thesis using ne e by (simp add: nat1)
  qed
  show "\<exists>c. SkipEmptyRows_cycleCount v sz w = Some (Inr c) \<and>
        SkipEmptyRows_cycleCount v (sz + 1) w =
          Some (Inr (if sz = 0 \<or> row_toread v (nat (sint sz) - 1) \<noteq> Inr 0 then c + 2 else c)) \<and>
        (sz + 1 <s 2147483647 \<and> row_toread v (Suc (nat (sint sz))) = Inr 0 \<longrightarrow>
           SkipEmptyRows_cycleCount v (sz + 2) w = SkipEmptyRows_cycleCount v (sz + 1) w)"
    using c pair by blast
qed

theorem SkipEmptyRows_cycleCount_empty_row_charge_witness:
  "0 <s (48 :: int32) \<and> 0 \<le>s (1 :: int32) \<and> (1 :: int32) <s 2147483647 \<and>
   row_toread [5, 5, 5] 0 = Inr 5 \<and> 0 \<le>s (5 :: int32) \<and>
   row_toread [5, 5, 5] 1 = Inr 0 \<and>
   row_toread [5, 5, 5] 2 = Inr 0 \<and>
   SkipEmptyRows_cycleCount [5, 5, 5] 1 48 = Some (Inr 1) \<and>
   SkipEmptyRows_cycleCount [5, 5, 5] 2 48 = Some (Inr 3) \<and>
   SkipEmptyRows_cycleCount [5, 5, 5] 3 48 = Some (Inr 3)"
proof -
  have h: "0 <s (48 :: int32)" "0 \<le>s (1 :: int32)" "(1 :: int32) <s 2147483647"
    "(1 :: int32) + 1 <s 2147483647"
    by (simp_all add: word_sle_eq word_sless_alt)
  have r: "\<forall>j < nat (sint (1 :: int32)). \<exists>t. row_toread [5, 5, 5] j = Inr t \<and> 0 \<le>s t"
    "row_toread [5, 5, 5] (nat (sint (1 :: int32))) = Inr 0"
    "row_toread [5, 5, 5] (Suc (nat (sint (1 :: int32)))) = Inr 0"
    "row_toread [5, 5, 5] (nat (sint (1 :: int32)) - 1) \<noteq> Inr 0"
    by (simp_all add: row_toread_def word_sle_eq)
  have one: "SkipEmptyRows_cycleCount [5, 5, 5] 1 48 = Some (Inr 1)"
    by (simp add: SkipEmptyRows_cycleCount_def SkipEmptyRows_for.simps row_toread_def SkipEmptyRows_do_while.simps
        std_min_def c_rem_def word_sless_alt)
  have r': "row_toread [5, 5, 5] 0 = Inr 5" "0 \<le>s (5 :: int32)"
    "row_toread [5, 5, 5] 1 = Inr 0" "row_toread [5, 5, 5] 2 = Inr 0"
    by (simp_all add: row_toread_def word_sle_eq)
  show ?thesis
    using SkipEmptyRows_cycleCount_empty_row_charge [of 48 1 "[5, 5, 5]"] h r r' one
    by auto
qed

text \<open>
  Against C1 as stated: a block of one empty row costs 2 cycles, a block of two empty
  rows costs 2 cycles, and an empty row after a row of 5 nonzeros raises the count
  from 1 to 3.
\<close>

theorem SkipEmptyRows_cycleCount_empty_row_charged_twice:
  "SkipEmptyRows_cycleCount [0] 1 48 = Some (Inr 2) \<and>
   SkipEmptyRows_cycleCount [0, 0] 2 48 = Some (Inr 2) \<and>
   SkipEmptyRows_cycleCount [5, 5] 1 48 = Some (Inr 1) \<and>
   SkipEmptyRows_cycleCount [5, 5] 2 48 = Some (Inr 3)"
  by (simp add: SkipEmptyRows_cycleCount_def SkipEmptyRows_for.simps row_toread_def SkipEmptyRows_do_while.simps
      std_min_def c_rem_def word_sless_alt)

section \<open>Construction and resource usage\<close>

lemma double_to_int_nonneg:
  fixes c w :: int
  assumes "0 \<le> c" "0 \<le> w" "c * w < 2 ^ 39"
  shows "double_to_int (real_of_int c * real_of_int w / 512 * 2)
           = Inr (word_of_int \<lfloor>real_of_int c * real_of_int w / 512 * 2\<rfloor>) \<and>
         0 \<le> \<lfloor>real_of_int c * real_of_int w / 512 * 2\<rfloor> \<and>
         \<lfloor>real_of_int c * real_of_int w / 512 * 2\<rfloor> < 2 ^ 31"
proof -
  let ?x = "real_of_int c * real_of_int w / 512 * 2"
  have x0: "0 \<le> ?x" using assms by simp
  have eq: "?x = real_of_int (c * w) / real_of_int 256" by simp
  have fl: "\<lfloor>?x\<rfloor> = (c * w) div 256" unfolding eq by (rule floor_divide_of_int_eq)
  have "0 \<le> c * w" using assms by simp
  then have lo: "0 \<le> (c * w) div 256" by (simp add: pos_imp_zdiv_nonneg_iff)
  have "\<And>x::int. x < 2 ^ 39 \<Longrightarrow> x div 256 < 2 ^ 31" by simp
  then have hi: "(c * w) div 256 < 2 ^ 31" using assms(3) by blast
  show ?thesis unfolding double_to_int_def Let_def using x0 fl lo hi by simp
qed

lemma getResourceUsage_nonneg:
  assumes "0 \<le>s cacheSize a" "0 \<le>s inputWidth a"
    "sint (cacheSize a) * sint (inputWidth a) < 2 ^ 39"
  shows "\<exists>r. getResourceUsage a = Inr r \<and>
     sint (brams r) = \<lfloor>real_of_int (sint (cacheSize a)) * real_of_int (sint (inputWidth a)) / 512 * 2\<rfloor>"
proof -
  let ?c = "sint (cacheSize a)" and ?w = "sint (inputWidth a)"
  have c0: "0 \<le> ?c" and w0: "0 \<le> ?w" using assms(1,2) by (simp_all add: word_sle_eq)
  note d = double_to_int_nonneg [OF c0 w0 assms(3)]
  have "sint (word_of_int \<lfloor>real_of_int ?c * real_of_int ?w / 512 * 2\<rfloor> :: int32)
      = \<lfloor>real_of_int ?c * real_of_int ?w / 512 * 2\<rfloor>"
    using d by (intro sint_of_int32) linarith+
  then show ?thesis
    unfolding getResourceUsage_def using d by (simp del: of_int_sint)
qed

text \<open>
  C7: for a cache size and an input width that are not negative and whose BRAM count
  fits an \<open>int\<close>, \<open>getResourceUsage\<close> returns
  \<open>floor (cacheSize * inputWidth / 512 * 2)\<close> BRAMs; for \<open>cacheSize = 2048\<close> and
  \<open>inputWidth = 48\<close> that is 384.
\<close>

theorem getResourceUsage_brams:
  "(0 \<le>s cacheSize a \<and> 0 \<le>s inputWidth a \<and> sint (cacheSize a) * sint (inputWidth a) < 2 ^ 39 \<longrightarrow>
      (\<exists>r. getResourceUsage a = Inr r \<and>
         sint (brams r) =
           \<lfloor>real_of_int (sint (cacheSize a)) * real_of_int (sint (inputWidth a)) / 512 * 2\<rfloor>)) \<and>
   (cacheSize a = 2048 \<and> inputWidth a = 48 \<longrightarrow>
      (\<exists>r. getResourceUsage a = Inr r \<and> brams r = 384))"
proof (intro conjI impI)
  assume "0 \<le>s cacheSize a \<and> 0 \<le>s inputWidth a \<and> sint (cacheSize a) * sint (inputWidth a) < 2 ^ 39"
  then show "\<exists>r. getResourceUsage a = Inr r \<and>
         sint (brams r) =
           \<lfloor>real_of_int (sint (cacheSize a)) * real_of_int (sint (inputWidth a)) / 512 * 2\<rfloor>"
    using getResourceUsage_nonneg [of a] by blast
next
  assume "cacheSize a = 2048 \<and> inputWidth a = 48"
  then show "\<exists>r. getResourceUsage a = Inr r \<and> brams r = 384"
    by (simp add: getResourceUsage_def double_to_int_def)
qed

theorem getResourceUsage_brams_witness:
  "0 \<le>s (2048 :: int32) \<and> 0 \<le>s (48 :: int32) \<and> sint (2048 :: int32) * sint (48 :: int32) < 2 ^ 39 \<and>
   getResourceUsage \<lparr>cacheSize = 2048, inputWidth = 48, numPipes = 1,
      mat = EigenSparseMatrix_empty, partitions = []\<rparr>
     = Inr \<lparr>luts = - 1, ffs = - 1, dsps = - 1, brams = 384\<rparr>"
  using getResourceUsage_brams [of "\<lparr>cacheSize = 2048, inputWidth = 48, numPipes = 1,
      mat = EigenSparseMatrix_empty, partitions = []\<rparr>"]
  by (simp add: getResourceUsage_def double_to_int_def word_sle_eq)

text \<open>
  C10: \<open>getResourceUsage\<close> depends on the cache size and the input width alone, not on
  the matrix, the recorded results or the number of pipes; whenever it returns, the
  LUT, FF and DSP fields are \<open>-1\<close>.
\<close>

theorem getResourceUsage_pure:
  "(cacheSize a = cacheSize b \<and> inputWidth a = inputWidth b \<longrightarrow>
      getResourceUsage a = getResourceUsage b) \<and>
   (getResourceUsage a = Inr r \<longrightarrow> luts r = - 1 \<and> ffs r = - 1 \<and> dsps r = - 1)"
  by (auto simp: getResourceUsage_def split: sum.splits)

theorem getResourceUsage_pure_witness:
  "getResourceUsage \<lparr>cacheSize = 1024, inputWidth = 8, numPipes = 1,
      mat = EigenSparseMatrix_empty, partitions = []\<rparr>
   = getResourceUsage \<lparr>cacheSize = 1024, inputWidth = 8, numPipes = 4,
      mat = \<lparr>rowPtr = [0, 1, 2], colIndex = [0, 1], vals = [1, 1]\<rparr>,
      partitions = [\<lparr>nPartitions = 1, nrows = 2, paddingCycles = 0, totalCycles = 2,
          vector_load_cycles = 0, outSize = 2, m_colptr = [], m_indptr_values = []\<rparr>]\<rparr> \<and>
   getResourceUsage \<lparr>cacheSize = 1024, inputWidth = 8, numPipes = 1,
      mat = EigenSparseMatrix_empty, partitions = []\<rparr>
   = Inr \<lparr>luts = - 1, ffs = - 1, dsps = - 1, brams = 32\<rparr> \<and>
   luts \<lparr>luts = - 1, ffs = - 1, dsps = - 1, brams = 32 :: int32\<rparr> = - 1"
  using getResourceUsage_pure [of "\<lparr>cacheSize = 1024, inputWidth = 8, numPipes = 1,
      mat = EigenSparseMatrix_empty, partitions = []\<rparr>"
    "\<lparr>cacheSize = 1024, inputWidth = 8, numPipes = 4,
      mat = \<lparr>rowPtr = [0, 1, 2], colIndex = [0, 1], vals = [1, 1]\<rparr>,
      partitions = [\<lparr>nPartitions = 1, nrows = 2, paddingCycles = 0, totalCycles = 2,
          vector_load_cycles = 0, outSize = 2, m_colptr = [], m_indptr_values = []\<rparr>]\<rparr>"
    "\<lparr>luts = - 1, ffs = - 1, dsps = - 1, brams = 32\<rparr>"]
  by (simp add: getResourceUsage_def double_to_int_def)

text \<open>
  C6, as the code has it: the constructor accepts every triple, non-positive values
  included, raises no \<open>InvalidConfiguration\<close> and stores the three values unchanged.
\<close>

theorem SimpleSpmvArchitecture_new_accepts:
  "\<exists>a. SimpleSpmvArchitecture_new c w p = Inr a \<and>
       cacheSize a = c \<and> inputWidth a = w \<and> numPipes a = p"
  by (simp add: SimpleSpmvArchitecture_new_def)

text \<open>
  Against C6 as stated: the triple \<open>(0, -1, 0)\<close> yields a model, not
  \<open>InvalidConfiguration\<close>.
\<close>

theorem SimpleSpmvArchitecture_new_nonpositive:
  "SimpleSpmvArchitecture_new 0 (- 1) 0 \<noteq> Inl InvalidConfiguration \<and>
   SimpleSpmvArchitecture_new 0 (- 1) 0 =
     Inr \<lparr>cacheSize = 0, inputWidth = - 1, numPipes = 0,
          mat = EigenSparseMatrix_empty, partitions = []\<rparr>"
  by (simp add: SimpleSpmvArchitecture_new_def)

section \<open>The sweep of the architecture space\<close>

lemma calls_mk:
  "calls mk k s =
     (map (map_option (\<lambda>(c, w, p). mk c w p)) (fst (calls (\<lambda>c w p. (c, w, p)) k s)),
      snd (calls (\<lambda>c w p. (c, w, p)) k s))"
proof (induction k arbitrary: s)
  case 0
  show ?case by simp
next
  case (Suc k)
  have d: "doNext mk s = (map_option (\<lambda>(c, w, p). mk c w p) (fst (doNext (\<lambda>c w p. (c, w, p)) s)),
      snd (doNext (\<lambda>c w p. (c, w, p)) s))"
    by (simp add: doNext_def Let_def)
  show ?case
    by (simp add: d Suc.IH [of "snd (doNext (\<lambda>c w p. (c, w, p)) s)"] split: prod.splits)
qed

lemma sweep_tuples:
  "calls (\<lambda>c w p. (c, w, p)) 505 SimpleSpmvArchitectureSpace_new =
   (map Some (concat (map (\<lambda>p. concat (map (\<lambda>w. map (\<lambda>c. (c, w, p))
        [1024, 1536, 2048, 2560, 3072, 3584, 4096])
        [8, 16, 24, 32, 40, 48, 56, 64, 72, 80, 88, 96]))
        [1, 2, 3, 4, 5, 6])) @ [None],
    SimpleSpmvArchitectureSpace_new\<lparr>last' := True\<rparr>)"
  by code_simp

lemma restart_after_sweep:
  "restart (SimpleSpmvArchitectureSpace_new\<lparr>last' := True\<rparr>) = SimpleSpmvArchitectureSpace_new"
  by (simp add: restart_def SimpleSpmvArchitectureSpace_new_def Range_restart_def Range_new_def)

text \<open>
  C4: with the default ranges, 504 successive calls return the 7 x 12 x 6 architectures,
  the cache size varying fastest, then the input width, then the number of pipes; the
  505th call returns the end marker; after \<open>restart\<close> the same 505 results come again.
\<close>

theorem default_sweep:
  "fst (calls mk 505 SimpleSpmvArchitectureSpace_new) =
     map Some (concat (map (\<lambda>p. concat (map (\<lambda>w. map (\<lambda>c. mk c w p)
        [1024, 1536, 2048, 2560, 3072, 3584, 4096])
        [8, 16, 24, 32, 40, 48, 56, 64, 72, 80, 88, 96]))
        [1, 2, 3, 4, 5, 6])) @ [None] \<and>
   length (concat (map (\<lambda>p. concat (map (\<lambda>w. map (\<lambda>c. mk c w p)
        [1024, 1536, 2048, 2560, 3072, 3584, 4096])
        [8, 16, 24, 32, 40, 48, 56, 64, 72, 80, 88, 96]))
        [1, 2, 3, 4, 5, 6 :: int32])) = 504 \<and>
   fst (calls mk 505 (restart (snd (calls mk 505 SimpleSpmvArchitectureSpace_new)))) =
     fst (calls mk 505 SimpleSpmvArchitectureSpace_new)"
proof -
  have s: "snd (calls mk 505 SimpleSpmvArchitectureSpace_new) =
      SimpleSpmvArchitectureSpace_new\<lparr>last' := True\<rparr>"
    by (subst calls_mk) (simp add: sweep_tuples)
  have f: "fst (calls mk 505 SimpleSpmvArchitectureSpace_new) =
     map Some (concat (map (\<lambda>p. concat (map (\<lambda>w. map (\<lambda>c. mk c w p)
        [1024, 1536, 2048, 2560, 3072, 3584, 4096])
        [8, 16, 24, 32, 40, 48, 56, 64, 72, 80, 88, 96]))
        [1, 2, 3, 4, 5, 6])) @ [None]"
    by (subst calls_mk) (simp add: sweep_tuples)
  show ?thesis
    unfolding s restart_after_sweep
    by (intro conjI) (simp_all only: f, simp)
qed

end
